theory Spec2Isabelle
  imports Complex_Main "HOL-Library.Multiset" "HOL-Library.Sublist"
begin

section \<open>Data model\<close>

text \<open>
  An order is a Python dictionary with the keys \<open>'value'\<close> and \<open>'weight'\<close>
  (both Python integers, hence unbounded) and, once the greedy approximation has
  touched it, the key \<open>'ratio'\<close>. The field \<open>order_ratio\<close> is \<open>None\<close> while
  the key is absent. A ratio is a double in the source; the field holds the exact quotient
  that the double is nearest to (see \<open>true_div\<close> below). Orders whose value is a float
  are outside this model.

  A list of orders is a list of references to dictionaries. The functions that only
  read the dictionaries are modelled on the list of their contents; the function that
  writes to them works on an explicit store from references to contents.
\<close>

record order =
  order_value :: int
  order_weight :: int
  order_ratio :: "rat option"

type_synonym ref = nat

type_synonym store = "ref \<Rightarrow> order"

datatype error = IndexError | KeyError | ZeroDivisionError | OverflowError | TypeError

text \<open>Sequencing of computations that may raise: the first error wins.\<close>

definition bind_e :: "error + 'a \<Rightarrow> ('a \<Rightarrow> error + 'b) \<Rightarrow> error + 'b" where
  "bind_e r f = (case r of Inl e \<Rightarrow> Inl e | Inr x \<Rightarrow> f x)"

text \<open>
  Python list subscription: an index in \<open>[0, len)\<close> reads from the front, an index in
  \<open>[-len, 0)\<close> from the back, anything else raises \<open>IndexError\<close>.
\<close>

definition py_norm :: "'a list \<Rightarrow> int \<Rightarrow> error + nat" where
  "py_norm xs k =
     (if 0 \<le> k \<and> k < int (length xs) then Inr (nat k)
      else if - int (length xs) \<le> k \<and> k < 0 then Inr (nat (int (length xs) + k))
      else Inl IndexError)"

definition py_get :: "'a list \<Rightarrow> int \<Rightarrow> error + 'a" where
  "py_get xs k = bind_e (py_norm xs k) (\<lambda>p. Inr (xs ! p))"

definition py_set :: "'a list \<Rightarrow> int \<Rightarrow> 'a \<Rightarrow> error + 'a list" where
  "py_set xs k x = bind_e (py_norm xs k) (\<lambda>p. Inr (xs[p := x]))"

section \<open>The memoized dynamic programme\<close>

text \<open>
  The table \<open>value\<close> of the source is a list of rows; \<open>value[i][j]\<close> reads a cell and
  \<open>value[i][j] = x\<close> replaces it in place. The rows are built by a comprehension, so
  no two rows are the same object.
\<close>

type_synonym table = "int list list"

definition table_get :: "table \<Rightarrow> int \<Rightarrow> int \<Rightarrow> error + int" where
  "table_get tbl i j = bind_e (py_get tbl i) (\<lambda>row. py_get row j)"

definition table_set :: "table \<Rightarrow> int \<Rightarrow> int \<Rightarrow> int \<Rightarrow> error + table" where
  "table_set tbl i j x =
     bind_e (py_get tbl i) (\<lambda>row.
     bind_e (py_set row j x) (\<lambda>row'.
     py_set tbl i row'))"

text \<open>The aliases \<open>w(i)\<close> and \<open>v(i)\<close> of the source: the weight and value of order \<open>i - 1\<close>.\<close>

definition w :: "order list \<Rightarrow> int \<Rightarrow> error + int" where
  "w orders i = bind_e (py_get orders (i - 1)) (\<lambda>x. Inr (order_weight x))"

definition v :: "order list \<Rightarrow> int \<Rightarrow> error + int" where
  "v orders i = bind_e (py_get orders (i - 1)) (\<lambda>x. Inr (order_value x))"

text \<open>
  The inner procedure \<open>m(i, j)\<close>. It returns nothing and fills the shared table, so
  the model takes the table and returns the table it leaves behind. The first argument
  starts at \<open>len(orders)\<close> and every recursive call passes \<open>i - 1\<close> after the test
  \<open>i == 0\<close> has failed, so it is a natural number and the recursion is structural.
\<close>

fun m :: "order list \<Rightarrow> nat \<Rightarrow> int \<Rightarrow> table \<Rightarrow> error + table" where
  "m orders 0 j tbl = table_set tbl 0 j 0"
| "m orders (Suc i) j tbl =
     (if j \<le> 0 then table_set tbl (int (Suc i)) j 0
      else
        bind_e (table_get tbl (int i) j) (\<lambda>c.
        bind_e (if c = - 1 then m orders i j tbl else Inr tbl) (\<lambda>t1.
        bind_e (w orders (int (Suc i))) (\<lambda>wi.
        if wi > j then
          bind_e (table_get t1 (int i) j) (\<lambda>x. table_set t1 (int (Suc i)) j x)
        else
          bind_e (table_get t1 (int i) (j - wi)) (\<lambda>c'.
          bind_e (if c' = - 1 then m orders i (j - wi) t1 else Inr t1) (\<lambda>t2.
          bind_e (table_get t2 (int i) j) (\<lambda>a.
          bind_e (table_get t2 (int i) (j - wi)) (\<lambda>b.
          bind_e (v orders (int (Suc i))) (\<lambda>vi.
          table_set t2 (int (Suc i)) j (max a (b + vi)))))))))))"

definition maximum_value_dynamic_solution_memoized :: "order list \<Rightarrow> int \<Rightarrow> error + int" where
  "maximum_value_dynamic_solution_memoized orders maximum_weight =
     (let n = length orders;
          W = maximum_weight;
          tbl = replicate (n + 1) (replicate (nat (W + 1)) (- 1))
      in bind_e (m orders n W tbl) (\<lambda>tbl'. table_get tbl' (int n) W))"

section \<open>The dispatcher\<close>

text \<open>
  The branch to the greedy approximation is commented out in the source; the
  dispatcher always runs the memoized dynamic programme.
\<close>

definition maximum_value :: "order list \<Rightarrow> int \<Rightarrow> error + int" where
  "maximum_value orders maximum_weight =
     maximum_value_dynamic_solution_memoized orders maximum_weight"

section \<open>Counters\<close>

text \<open>
  \<open>Counter(order)\<close> copies the dictionary of an order. A counter answers 0 for a key
  it does not hold, so it is modelled by the number it answers for each of the three
  keys. Adding two counters adds the counts key by key and keeps a key only when its sum
  is positive; a dropped key answers 0 afterwards.
\<close>

record counter =
  c_value :: int
  c_weight :: int
  c_ratio :: rat

definition Counter :: "order \<Rightarrow> counter" where
  "Counter x =
     \<lparr>c_value = order_value x, c_weight = order_weight x,
      c_ratio = (case order_ratio x of None \<Rightarrow> 0 | Some r \<Rightarrow> r)\<rparr>"

definition keep_positive :: "'a::linordered_idom \<Rightarrow> 'a" where
  "keep_positive s = (if s > 0 then s else 0)"

definition counter_add :: "counter \<Rightarrow> counter \<Rightarrow> counter" where
  "counter_add a b =
     \<lparr>c_value = keep_positive (c_value a + c_value b),
      c_weight = keep_positive (c_weight a + c_weight b),
      c_ratio = keep_positive (c_ratio a + c_ratio b)\<rparr>"

text \<open>\<open>functools.reduce\<close> without an initial value: it raises on an empty sequence.\<close>

fun reduce :: "('a \<Rightarrow> 'a \<Rightarrow> 'a) \<Rightarrow> 'a list \<Rightarrow> error + 'a" where
  "reduce f [] = Inl TypeError"
| "reduce f (x # xs) = Inr (foldl f x xs)"

section \<open>The exhaustive search\<close>

text \<open>
  \<open>itertools.combinations(xs, k)\<close>: the sub-lists of length \<open>k\<close>, in the
  lexicographic order of their positions.
\<close>

fun combinations :: "'a list \<Rightarrow> nat \<Rightarrow> 'a list list" where
  "combinations xs 0 = [[]]"
| "combinations [] (Suc k) = []"
| "combinations (x # xs) (Suc k) =
     map ((#) x) (combinations xs k) @ combinations xs (Suc k)"

text \<open>The inner loop, over the combinations of one length.\<close>

fun naive_combinations :: "int \<Rightarrow> order list list \<Rightarrow> int \<Rightarrow> error + int" where
  "naive_combinations W [] max_payload_value = Inr max_payload_value"
| "naive_combinations W (combination # rest) max_payload_value =
     bind_e (reduce counter_add (map Counter combination)) (\<lambda>payload.
     naive_combinations W rest
       (if c_weight payload \<le> W \<and> c_value payload > max_payload_value
        then c_value payload else max_payload_value))"

text \<open>The outer loop, over the lengths \<open>range(len(orders_filtered), 0, -1)\<close>.\<close>

fun naive_lengths :: "int \<Rightarrow> order list \<Rightarrow> nat list \<Rightarrow> int \<Rightarrow> error + int" where
  "naive_lengths W orders_filtered [] max_payload_value = Inr max_payload_value"
| "naive_lengths W orders_filtered (len # lens) max_payload_value =
     bind_e (naive_combinations W (combinations orders_filtered len) max_payload_value)
       (\<lambda>max_payload_value'. naive_lengths W orders_filtered lens max_payload_value')"

definition maximum_value_naive :: "order list \<Rightarrow> int \<Rightarrow> error + int" where
  "maximum_value_naive orders maximum_weight =
     (let max_payload_value = 0;
          orders_filtered = filter (\<lambda>x. \<not> order_weight x > maximum_weight) orders
      in naive_lengths maximum_weight orders_filtered
           (rev [1 ..< length orders_filtered + 1]) max_payload_value)"

section \<open>The greedy approximation\<close>

text \<open>
  The true division \<open>a / b\<close> of two Python integers. It raises \<open>ZeroDivisionError\<close>
  when \<open>b\<close> is 0. Otherwise the quotient is rounded to the nearest double, ties to even,
  and \<open>OverflowError\<close> is raised when the rounded quotient leaves the range of doubles.
  The largest double is \<open>2 ^ 1024 - 2 ^ 971\<close> and the next value of the same spacing
  would be \<open>2 ^ 1024\<close>, so the division overflows exactly when the absolute value of
  the quotient is at least their midpoint \<open>2 ^ 1024 - 2 ^ 970\<close>, that is, when
  \<open>\<bar>a\<bar>\<close> is at least that midpoint times \<open>\<bar>b\<bar>\<close>.

  The rounding itself is not modelled: the result stands for the double nearest to it.
  Rounding is monotone, so it never reverses the order of two ratios; it can make two
  different ratios equal, and the source then keeps such orders in their input order where
  the model sorts them by the exact ratio. No theorem below depends on how ties are broken.
\<close>

definition double_overflow :: int where
  "double_overflow = 2 ^ 1024 - 2 ^ 970"

definition true_div :: "int \<Rightarrow> int \<Rightarrow> error + rat" where
  "true_div a b =
     (if b = 0 then Inl ZeroDivisionError
      else if double_overflow * \<bar>b\<bar> \<le> \<bar>a\<bar> then Inl OverflowError
      else Inr (of_int a / of_int b))"

text \<open>
  The comprehension \<open>[order.update(ratio=order['value']/order['weight']) for order in
  filtered_orders]\<close> writes to the dictionaries the caller passed in. It stops at the
  first division that raises, leaving the earlier dictionaries updated.
\<close>

fun update_ratios :: "ref list \<Rightarrow> store \<Rightarrow> error option \<times> store" where
  "update_ratios [] h = (None, h)"
| "update_ratios (a # as) h =
     (case true_div (order_value (h a)) (order_weight (h a)) of
        Inl e \<Rightarrow> (Some e, h)
      | Inr q \<Rightarrow> update_ratios as (h(a := (h a)\<lparr>order_ratio := Some q\<rparr>)))"

text \<open>The sort key \<open>o['ratio']\<close>.\<close>

definition ratio_key :: "store \<Rightarrow> ref \<Rightarrow> error + rat" where
  "ratio_key h a = (case order_ratio (h a) of None \<Rightarrow> Inl KeyError | Some r \<Rightarrow> Inr r)"

fun map_e :: "('a \<Rightarrow> error + 'b) \<Rightarrow> 'a list \<Rightarrow> error + 'b list" where
  "map_e f [] = Inr []"
| "map_e f (x # xs) = bind_e (f x) (\<lambda>y. bind_e (map_e f xs) (\<lambda>ys. Inr (y # ys)))"

text \<open>
  \<open>sorted(filtered_orders, key=..., reverse=True)\<close>: the keys are computed first, then
  the list is sorted by descending key; the sort is stable, so orders of equal ratio keep
  their relative position. \<open>sort_key\<close> is a stable insertion sort, used here on the
  negated key.
\<close>

definition sorted_by_ratio :: "store \<Rightarrow> ref list \<Rightarrow> error + ref list" where
  "sorted_by_ratio h as =
     bind_e (map_e (ratio_key h) as) (\<lambda>ks.
     Inr (map snd (sort_key (\<lambda>p. - fst p) (zip ks as))))"

text \<open>
  The loop over \<open>sorted_filtered_orders[1:]\<close>. Its state is \<open>final_order\<close> and
  \<open>payload\<close>; \<open>break\<close> returns the state, \<open>continue\<close> goes on with the state as
  it is.
\<close>

fun fill :: "store \<Rightarrow> int \<Rightarrow> ref list \<Rightarrow> ref list \<times> counter \<Rightarrow> error + ref list \<times> counter" where
  "fill h W [] (final_order, payload) = Inr (final_order, payload)"
| "fill h W (a # rest) (final_order, payload) =
     (if c_weight payload = W then Inr (final_order, payload)
      else if c_weight payload + order_weight (h a) > W then fill h W rest (final_order, payload)
      else
        bind_e (reduce counter_add (map (\<lambda>r. Counter (h r)) (final_order @ [a]))) (\<lambda>payload'.
        fill h W rest (final_order @ [a], payload')))"

definition maximum_value_greedy_approx :: "store \<Rightarrow> ref list \<Rightarrow> int \<Rightarrow> (error + int) \<times> store" where
  "maximum_value_greedy_approx h orders maximum_weight =
     (let max_payload_value = 0;
          filtered_orders = filter (\<lambda>a. \<not> order_weight (h a) > maximum_weight) orders
      in if length filtered_orders = 0 then (Inr max_payload_value, h)
         else
           (case update_ratios filtered_orders h of
              (Some e, h') \<Rightarrow> (Inl e, h')
            | (None, h') \<Rightarrow>
                (bind_e (sorted_by_ratio h' filtered_orders) (\<lambda>sorted_filtered_orders.
                 bind_e (py_get sorted_filtered_orders 0) (\<lambda>first.
                 bind_e (reduce counter_add (map (\<lambda>r. Counter (h' r)) [first])) (\<lambda>payload.
                 bind_e (fill h' maximum_weight (drop 1 sorted_filtered_orders) ([first], payload))
                   (\<lambda>(final_order, payload'). Inr (c_value payload'))))),
                 h')))"

section \<open>Calls on the store\<close>

text \<open>
  The dispatcher, the exhaustive search and the dynamic programme only read the
  dictionaries they are given: a call reads the contents through the references and
  leaves the store as it found it.
\<close>

definition call_maximum_value :: "store \<Rightarrow> ref list \<Rightarrow> int \<Rightarrow> (error + int) \<times> store" where
  "call_maximum_value h orders W = (maximum_value (map h orders) W, h)"

definition call_maximum_value_naive :: "store \<Rightarrow> ref list \<Rightarrow> int \<Rightarrow> (error + int) \<times> store" where
  "call_maximum_value_naive h orders W = (maximum_value_naive (map h orders) W, h)"

definition call_maximum_value_dynamic_solution_memoized ::
    "store \<Rightarrow> ref list \<Rightarrow> int \<Rightarrow> (error + int) \<times> store" where
  "call_maximum_value_dynamic_solution_memoized h orders W =
     (maximum_value_dynamic_solution_memoized (map h orders) W, h)"

section \<open>The recurrence behind the table\<close>

text \<open>
  The value that \<open>m(i, j)\<close> stores in cell \<open>(i, j)\<close>, read off its branches: this is
  the recurrence the table memoizes, used below to state what the table holds.
\<close>

fun knap :: "order list \<Rightarrow> nat \<Rightarrow> int \<Rightarrow> int" where
  "knap orders 0 j = 0"
| "knap orders (Suc i) j =
     (if j \<le> 0 then 0
      else if order_weight (orders ! i) > j then knap orders i j
      else max (knap orders i j)
               (knap orders i (j - order_weight (orders ! i)) + order_value (orders ! i)))"

text \<open>
  The table invariant: the table has \<open>n + 1\<close> rows of \<open>W + 1\<close> cells, and every cell
  holds the sentinel or the value of the recurrence.
\<close>

definition table_ok :: "order list \<Rightarrow> int \<Rightarrow> table \<Rightarrow> bool" where
  "table_ok orders W tbl \<longleftrightarrow>
     length tbl = length orders + 1 \<and>
     (\<forall>i \<le> length orders. length (tbl ! i) = nat (W + 1) \<and>
        (\<forall>j. 0 \<le> j \<and> j \<le> W \<longrightarrow>
           tbl ! i ! nat j = - 1 \<or> tbl ! i ! nat j = knap orders i j))"

text \<open>A later table keeps every cell that already held the value of the recurrence.\<close>

definition keeps :: "order list \<Rightarrow> int \<Rightarrow> table \<Rightarrow> table \<Rightarrow> bool" where
  "keeps orders W tbl tbl' \<longleftrightarrow>
     (\<forall>i \<le> length orders. \<forall>j. 0 \<le> j \<and> j \<le> W \<longrightarrow>
        tbl ! i ! nat j = knap orders i j \<longrightarrow> tbl' ! i ! nat j = knap orders i j)"

section \<open>Inputs of the scenarios\<close>

definition mk_order :: "int \<Rightarrow> int \<Rightarrow> order" where
  "mk_order val wt = \<lparr>order_value = val, order_weight = wt, order_ratio = None\<rparr>"

definition canonical_orders :: "order list" where
  "canonical_orders = [mk_order 10 5, mk_order 40 4, mk_order 30 6, mk_order 50 3]"

text \<open>The three orders of the strictness scenario, held at the references 0, 1 and 2.\<close>

definition greedy_store :: store where
  "greedy_store = (\<lambda>_. mk_order 1 51)(0 := mk_order 60 10, 1 := mk_order 100 20, 2 := mk_order 120 30)"

text \<open>A store in which every order has value \<open>10 ^ 400\<close> and weight 1.\<close>

definition huge_value_store :: store where
  "huge_value_store = (\<lambda>_. mk_order (10 ^ 400) 1)"

text \<open>A store in which every order has value 1 and weight 0.\<close>

definition zero_weight_store :: store where
  "zero_weight_store = (\<lambda>_. mk_order 1 0)"

section \<open>The table is filled correctly\<close>

lemma bind_e_Inr [simp]: "bind_e (Inr x) f = f x"
  by (simp add: bind_e_def)

lemma bind_e_Inl [simp]: "bind_e (Inl e) f = Inl e"
  by (simp add: bind_e_def)

lemma py_get_nat: "i < length xs \<Longrightarrow> py_get xs (int i) = Inr (xs ! i)"
  by (simp add: py_get_def py_norm_def)

lemma py_set_nat: "i < length xs \<Longrightarrow> py_set xs (int i) x = Inr (xs[i := x])"
  by (simp add: py_set_def py_norm_def)

lemma table_get_ok:
  assumes "table_ok orders W tbl" "i \<le> length orders" "0 \<le> j" "j \<le> W"
  shows "table_get tbl (int i) j = Inr (tbl ! i ! nat j)"
proof -
  from assms have "i < length tbl" "nat j < length (tbl ! i)"
    by (auto simp: table_ok_def)
  then show ?thesis
    using assms(3) py_get_nat [of "nat j" "tbl ! i"]
    by (simp add: table_get_def py_get_nat)
qed

lemma table_set_ok:
  assumes "table_ok orders W tbl" "i \<le> length orders" "0 \<le> j" "j \<le> W"
  shows "table_set tbl (int i) j x = Inr (tbl[i := (tbl ! i)[nat j := x]])"
proof -
  from assms have "i < length tbl" "nat j < length (tbl ! i)"
    by (auto simp: table_ok_def)
  then show ?thesis
    using assms(3) py_set_nat [of "nat j" "tbl ! i" x]
    by (simp add: table_set_def py_get_nat py_set_nat)
qed

lemma table_ok_update:
  assumes "table_ok orders W tbl" "i \<le> length orders" "0 \<le> j" "j \<le> W"
  shows "table_ok orders W (tbl[i := (tbl ! i)[nat j := knap orders i j]])"
  unfolding table_ok_def
proof (intro conjI allI impI)
  show "length (tbl[i := (tbl ! i)[nat j := knap orders i j]]) = length orders + 1"
    using assms(1) by (simp add: table_ok_def)
next
  fix i' assume "i' \<le> length orders"
  then show "length (tbl[i := (tbl ! i)[nat j := knap orders i j]] ! i') = nat (W + 1)"
    using assms(1,2) by (cases "i' = i") (auto simp: table_ok_def)
next
  fix i' j' assume a: "i' \<le> length orders" "0 \<le> j' \<and> j' \<le> W"
  let ?t = "tbl[i := (tbl ! i)[nat j := knap orders i j]]"
  from assms have len: "i < length tbl" "nat j < length (tbl ! i)"
    by (auto simp: table_ok_def)
  from assms(1) a have old: "tbl ! i' ! nat j' = - 1 \<or> tbl ! i' ! nat j' = knap orders i' j'"
    by (simp add: table_ok_def)
  show "?t ! i' ! nat j' = - 1 \<or> ?t ! i' ! nat j' = knap orders i' j'"
  proof (cases "i' = i \<and> j' = j")
    case True
    then show ?thesis using len by simp
  next
    case False
    then have "?t ! i' ! nat j' = tbl ! i' ! nat j'"
      using len a assms(3) by (cases "i' = i") (auto simp: nth_list_update)
    then show ?thesis using old by simp
  qed
qed

lemma table_update_cell:
  assumes "table_ok orders W tbl" "i \<le> length orders" "0 \<le> j" "j \<le> W"
  shows "tbl[i := (tbl ! i)[nat j := x]] ! i ! nat j = x"
  using assms by (auto simp: table_ok_def)

lemma w_ok: "i < length orders \<Longrightarrow> w orders (int (Suc i)) = Inr (order_weight (orders ! i))"
  by (simp add: w_def py_get_def py_norm_def)

lemma v_ok: "i < length orders \<Longrightarrow> v orders (int (Suc i)) = Inr (order_value (orders ! i))"
  by (simp add: v_def py_get_def py_norm_def)



lemma keeps_refl: "keeps orders W tbl tbl"
  by (simp add: keeps_def)

lemma keeps_trans: "keeps orders W t1 t2 \<Longrightarrow> keeps orders W t2 t3 \<Longrightarrow> keeps orders W t1 t3"
  by (simp add: keeps_def)

lemma keeps_update:
  assumes "table_ok orders W tbl" "i \<le> length orders" "0 \<le> j" "j \<le> W"
  shows "keeps orders W tbl (tbl[i := (tbl ! i)[nat j := knap orders i j]])"
  unfolding keeps_def
proof (intro allI impI)
  fix i' j'
  assume a: "i' \<le> length orders" "0 \<le> j' \<and> j' \<le> W" "tbl ! i' ! nat j' = knap orders i' j'"
  let ?t = "tbl[i := (tbl ! i)[nat j := knap orders i j]]"
  from assms have len: "i < length tbl" "nat j < length (tbl ! i)"
    by (auto simp: table_ok_def)
  show "?t ! i' ! nat j' = knap orders i' j'"
  proof (cases "i' = i \<and> j' = j")
    case True
    then show ?thesis using len by simp
  next
    case False
    then have "?t ! i' ! nat j' = tbl ! i' ! nat j'"
      using len a assms(3) by (cases "i' = i") (auto simp: nth_list_update)
    then show ?thesis using a(3) by simp
  qed
qed

lemma m_correct:
  assumes "table_ok orders W tbl" "i \<le> length orders" "0 \<le> j" "j \<le> W"
    and "\<forall>k<i. 0 \<le> order_weight (orders ! k)"
  shows "\<exists>tbl'. m orders i j tbl = Inr tbl' \<and> table_ok orders W tbl' \<and>
           keeps orders W tbl tbl' \<and> tbl' ! i ! nat j = knap orders i j"
  using assms
proof (induction i arbitrary: j tbl)
  case 0
  have "m orders 0 j tbl = Inr (tbl[0 := (tbl ! 0)[nat j := 0]])"
    using table_set_ok [OF "0.prems"(1), of 0 j 0] "0.prems" by simp
  moreover have "table_ok orders W (tbl[0 := (tbl ! 0)[nat j := 0]])"
    using table_ok_update [OF "0.prems"(1), of 0 j] "0.prems" by simp
  moreover have "keeps orders W tbl (tbl[0 := (tbl ! 0)[nat j := 0]])"
    using keeps_update [OF "0.prems"(1), of 0 j] "0.prems" by simp
  moreover have "tbl[0 := (tbl ! 0)[nat j := 0]] ! 0 ! nat j = 0"
    using table_update_cell [OF "0.prems"(1), of 0 j 0] "0.prems" by simp
  ultimately show ?case by simp
next
  case (Suc i)
  note ok = Suc.prems(1)
  have i_le: "i \<le> length orders" and i_lt: "i < length orders"
    using Suc.prems(2) by simp_all
  have wts: "\<forall>k<i. 0 \<le> order_weight (orders ! k)"
    using Suc.prems(5) by simp
  have wi_nonneg: "0 \<le> order_weight (orders ! i)"
    using Suc.prems(5) by simp
  have ensure: "\<exists>t'. (if t ! i ! nat j' = - 1 then m orders i j' t else Inr t) = Inr t' \<and>
      table_ok orders W t' \<and> keeps orders W t t' \<and> t' ! i ! nat j' = knap orders i j'"
    if "table_ok orders W t" "0 \<le> j'" "j' \<le> W" for t j'
  proof (cases "t ! i ! nat j' = - 1")
    case True
    then show ?thesis using Suc.IH [OF that(1) i_le that(2,3) wts] by simp
  next
    case False
    moreover have "t ! i ! nat j' = - 1 \<or> t ! i ! nat j' = knap orders i j'"
      using that i_le by (simp add: table_ok_def)
    ultimately show ?thesis using that(1) by (simp add: keeps_refl)
  qed
  have finish: "\<exists>tbl'. table_set t (int (Suc i)) j (knap orders (Suc i) j) = Inr tbl' \<and>
      table_ok orders W tbl' \<and> keeps orders W t tbl' \<and>
      tbl' ! Suc i ! nat j = knap orders (Suc i) j"
    if "table_ok orders W t" for t
    using table_set_ok [OF that Suc.prems(2,3,4)] table_ok_update [OF that Suc.prems(2,3,4)]
      table_update_cell [OF that Suc.prems(2,3,4)] keeps_update [OF that Suc.prems(2,3,4)]
    by simp
  show ?case
  proof (cases "j \<le> 0")
    case True
    then have "m orders (Suc i) j tbl = table_set tbl (int (Suc i)) j (knap orders (Suc i) j)"
      by simp
    then show ?thesis using finish [OF ok] by simp
  next
    case jpos: False
    from ensure [OF ok Suc.prems(3,4)] obtain t1 where t1:
      "(if tbl ! i ! nat j = - 1 then m orders i j tbl else Inr tbl) = Inr t1"
      "table_ok orders W t1" "keeps orders W tbl t1" "t1 ! i ! nat j = knap orders i j"
      by blast
    have g0: "table_get tbl (int i) j = Inr (tbl ! i ! nat j)"
      using table_get_ok [OF ok i_le Suc.prems(3,4)] .
    have g1: "table_get t1 (int i) j = Inr (knap orders i j)"
      using table_get_ok [OF t1(2) i_le Suc.prems(3,4)] t1(4) by simp
    show ?thesis
    proof (cases "order_weight (orders ! i) > j")
      case True
      have "m orders (Suc i) j tbl = table_set t1 (int (Suc i)) j (knap orders (Suc i) j)"
        using jpos True g0 t1(1) g1 w_ok [OF i_lt] by simp
      moreover from finish [OF t1(2)] obtain t3 where t3:
        "table_set t1 (int (Suc i)) j (knap orders (Suc i) j) = Inr t3"
        "table_ok orders W t3" "keeps orders W t1 t3"
        "t3 ! Suc i ! nat j = knap orders (Suc i) j"
        by blast
      moreover have "keeps orders W tbl t3"
        using keeps_trans [OF t1(3) t3(3)] .
      ultimately show ?thesis by simp
    next
      case False
      let ?wi = "order_weight (orders ! i)"
      have r: "0 \<le> j - ?wi" "j - ?wi \<le> W"
        using False wi_nonneg Suc.prems(4) by simp_all
      from ensure [OF t1(2) r] obtain t2 where t2:
        "(if t1 ! i ! nat (j - ?wi) = - 1 then m orders i (j - ?wi) t1 else Inr t1) = Inr t2"
        "table_ok orders W t2" "keeps orders W t1 t2"
        "t2 ! i ! nat (j - ?wi) = knap orders i (j - ?wi)"
        by blast
      have g2: "table_get t1 (int i) (j - ?wi) = Inr (t1 ! i ! nat (j - ?wi))"
        using table_get_ok [OF t1(2) i_le r] .
      have g3: "table_get t2 (int i) (j - ?wi) = Inr (knap orders i (j - ?wi))"
        using table_get_ok [OF t2(2) i_le r] t2(4) by simp
      have "t2 ! i ! nat j = knap orders i j"
        using t2(3) t1(4) i_le Suc.prems(3,4) by (simp add: keeps_def)
      then have g4: "table_get t2 (int i) j = Inr (knap orders i j)"
        using table_get_ok [OF t2(2) i_le Suc.prems(3,4)] by simp
      have "m orders (Suc i) j tbl = table_set t2 (int (Suc i)) j (knap orders (Suc i) j)"
        using jpos False g0 t1(1) g2 t2(1) g3 g4 w_ok [OF i_lt] v_ok [OF i_lt] by simp
      moreover from finish [OF t2(2)] obtain t3 where t3:
        "table_set t2 (int (Suc i)) j (knap orders (Suc i) j) = Inr t3"
        "table_ok orders W t3" "keeps orders W t2 t3"
        "t3 ! Suc i ! nat j = knap orders (Suc i) j"
        by blast
      moreover have "keeps orders W tbl t3"
        using keeps_trans [OF keeps_trans [OF t1(3) t2(3)] t3(3)] .
      ultimately show ?thesis by simp
    qed
  qed
qed

lemma init_table_ok:
  assumes "0 \<le> W"
  shows "table_ok orders W (replicate (length orders + 1) (replicate (nat (W + 1)) (- 1)))"
  unfolding table_ok_def using assms
  by (simp del: replicate.simps add: nth_replicate)

lemma dp_correct:
  assumes "0 \<le> W" "\<forall>x \<in> set orders. 0 \<le> order_weight x"
  shows "maximum_value_dynamic_solution_memoized orders W = Inr (knap orders (length orders) W)"
proof -
  let ?t = "replicate (length orders + 1) (replicate (nat (W + 1)) (- 1 :: int))"
  have wts: "\<forall>k<length orders. 0 \<le> order_weight (orders ! k)"
    using assms(2) by simp
  have "\<exists>tbl'. m orders (length orders) W ?t = Inr tbl' \<and> table_ok orders W tbl' \<and>
      keeps orders W ?t tbl' \<and> tbl' ! length orders ! nat W = knap orders (length orders) W"
    using init_table_ok [OF assms(1), of orders] assms(1) wts
    by (intro m_correct) simp_all
  then obtain tbl' where t: "m orders (length orders) W ?t = Inr tbl'" "table_ok orders W tbl'"
    "tbl' ! length orders ! nat W = knap orders (length orders) W"
    by blast
  have "table_get tbl' (int (length orders)) W = Inr (knap orders (length orders) W)"
    using table_get_ok [OF t(2) order_refl assms(1) order_refl] t(3) by simp
  then show ?thesis
    using t(1) by (simp add: maximum_value_dynamic_solution_memoized_def Let_def)
qed

lemma knap_ge_0: "0 \<le> knap orders i j"
proof (induction i arbitrary: j)
  case 0
  then show ?case by simp
next
  case (Suc i)
  have "0 \<le> knap orders i j" by (rule Suc.IH)
  then show ?case by (simp add: max_def)
qed


lemma knap_append: "i \<le> length xs \<Longrightarrow> knap (xs @ ys) i j = knap xs i j"
  by (induction i arbitrary: j) (auto simp: nth_append)

lemma knap_heavy:
  "\<forall>k<i. order_weight (orders ! k) > j \<Longrightarrow> knap orders i j = 0"
  by (induction i) auto

lemma knap_zero_capacity: "j \<le> 0 \<Longrightarrow> knap orders i j = 0"
  by (cases i) auto

lemma knap_snoc_ge: "knap orders (length orders) W \<le> knap (orders @ [x]) (Suc (length orders)) W"
  by (auto simp: knap_append knap_zero_capacity)

lemma maximum_value_knap:
  assumes "0 \<le> W" "\<forall>x \<in> set orders. 0 \<le> order_weight x"
  shows "maximum_value orders W = Inr (knap orders (length orders) W)"
  using dp_correct [OF assms] by (simp add: maximum_value_def)

lemma maximum_value_capacity_zero: "maximum_value orders 0 = Inr 0"
proof -
  let ?n = "length orders"
  let ?t = "replicate (?n + 1) (replicate (nat (0 + 1)) (- 1 :: int))"
  have ok: "table_ok orders 0 ?t"
    using init_table_ok [of 0 orders] by simp
  have set: "table_set ?t (int ?n) 0 0 = Inr (?t[?n := (?t ! ?n)[nat 0 := 0]])"
    using table_set_ok [OF ok order_refl order_refl order_refl] .
  have "m orders ?n 0 ?t = table_set ?t (int ?n) 0 0"
    by (cases ?n) simp_all
  moreover have "table_ok orders 0 (?t[?n := (?t ! ?n)[nat 0 := 0]])"
    using table_ok_update [OF ok order_refl order_refl order_refl] knap_zero_capacity [of 0 orders ?n]
    by simp
  then have "table_get (?t[?n := (?t ! ?n)[nat 0 := 0]]) (int ?n) 0 = Inr 0"
    using table_get_ok [of orders 0 _ ?n 0] table_update_cell [OF ok order_refl order_refl order_refl, of 0]
    by simp
  ultimately show ?thesis
    using set by (simp add: maximum_value_def maximum_value_dynamic_solution_memoized_def Let_def)
qed

section \<open>The recurrence is the optimum for positive weights\<close>

lemma mset_subset_add_mset: "(A::'a multiset) \<subseteq># B \<Longrightarrow> A \<subseteq># add_mset x B"
  using subset_mset.trans by fastforce

lemma mset_subset_drop_absent:
  assumes "S \<subseteq># add_mset x M" "\<not> x \<in># S"
  shows "S \<subseteq># M"
  unfolding subseteq_mset_def
proof
  fix a
  show "count S a \<le> count M a"
  proof (cases "a = x")
    case True
    then show ?thesis using assms(2) by (simp add: not_in_iff)
  next
    case False
    then show ?thesis using assms(1) mset_subset_eq_count [of S "add_mset x M" a] by simp
  qed
qed

lemma subseq_mset_le: "subseq xs ys \<Longrightarrow> mset xs \<subseteq># mset ys"
  by (induction rule: list_emb.induct) (auto intro: mset_subset_add_mset)

lemma sum_weights_nonneg:
  "\<forall>x \<in># S. 0 \<le> order_weight x \<Longrightarrow> 0 \<le> sum_mset (image_mset order_weight S)"
  by (induction S) auto

lemma knap_dominates:
  assumes "\<forall>x \<in> set orders. 0 < order_weight x"
    and "S \<subseteq># mset orders"
    and "sum_mset (image_mset order_weight S) \<le> W"
  shows "sum_mset (image_mset order_value S) \<le> knap orders (length orders) W"
  using assms
proof (induction orders arbitrary: S W rule: rev_induct)
  case Nil
  then show ?case by simp
next
  case (snoc x ys)
  have pos: "\<forall>y \<in> set ys. 0 < order_weight y" and xpos: "0 < order_weight x"
    using snoc.prems(1) by simp_all
  show ?case
  proof (cases "x \<in># S")
    case True
    define S' where "S' = S - {#x#}"
    have S: "S = add_mset x S'"
      using True by (simp add: S'_def)
    have sub: "S' \<subseteq># mset ys"
      using snoc.prems(2) S by simp
    have "\<forall>y \<in># S'. 0 \<le> order_weight y"
    proof
      fix y assume "y \<in># S'"
      then have "y \<in> set ys"
        using mset_subset_eqD [OF sub] by simp
      then show "0 \<le> order_weight y"
        using pos by (simp add: less_imp_le)
    qed
    then have nn: "0 \<le> sum_mset (image_mset order_weight S')"
      by (rule sum_weights_nonneg)
    have le: "sum_mset (image_mset order_weight S') \<le> W - order_weight x"
      using snoc.prems(3) S by simp
    have fits: "order_weight x \<le> W" "0 < W"
      using le nn xpos by simp_all
    have IH: "sum_mset (image_mset order_value S') \<le> knap ys (length ys) (W - order_weight x)"
      using snoc.IH [OF pos sub le] .
    have "knap (ys @ [x]) (Suc (length ys)) W =
        max (knap (ys @ [x]) (length ys) W)
            (knap (ys @ [x]) (length ys) (W - order_weight x) + order_value x)"
      using fits by simp
    then have k: "knap (ys @ [x]) (Suc (length ys)) W =
        max (knap ys (length ys) W) (knap ys (length ys) (W - order_weight x) + order_value x)"
      by (simp only: knap_append [OF order_refl])
    have "sum_mset (image_mset order_value S) =
        order_value x + sum_mset (image_mset order_value S')"
      by (subst S) simp
    then have "sum_mset (image_mset order_value S) \<le> knap (ys @ [x]) (Suc (length ys)) W"
      using IH k by linarith
    then show ?thesis by (simp only: length_append_singleton)
  next
    case False
    then have sub: "S \<subseteq># mset ys"
      using snoc.prems(2) mset_subset_drop_absent [of S x "mset ys"] by simp
    have "sum_mset (image_mset order_value S) \<le> knap ys (length ys) W"
      using snoc.IH [OF pos sub snoc.prems(3)] .
    also have "\<dots> \<le> knap (ys @ [x]) (Suc (length ys)) W"
      by (rule knap_snoc_ge)
    finally show ?thesis by (simp only: length_append_singleton)
  qed
qed

lemma knap_achieved:
  assumes "i \<le> length orders" "0 \<le> j"
  shows "\<exists>ys. subseq ys (take i orders) \<and> sum_list (map order_weight ys) \<le> j \<and>
           sum_list (map order_value ys) = knap orders i j"
  using assms
proof (induction i arbitrary: j)
  case 0
  then show ?case by (intro exI [of _ "[]"]) simp
next
  case (Suc i)
  have i_lt: "i < length orders" and i_le: "i \<le> length orders"
    using Suc.prems(1) by simp_all
  have tk: "take (Suc i) orders = take i orders @ [orders ! i]"
    using i_lt by (simp add: take_Suc_conv_app_nth)
  let ?x = "orders ! i"
  show ?case
  proof (cases "j \<le> 0 ")
    case True
    then have "knap orders (Suc i) j = 0" by simp
    moreover have "subseq [] (take (Suc i) orders)" by simp
    ultimately show ?thesis using Suc.prems(2) by (intro exI [of _ "[]"]) simp
  next
    case jpos: False
    from Suc.IH [OF i_le Suc.prems(2)] obtain ys where ys:
      "subseq ys (take i orders)" "sum_list (map order_weight ys) \<le> j"
      "sum_list (map order_value ys) = knap orders i j"
      by blast
    have ys': "subseq ys (take (Suc i) orders)"
      using ys(1) tk by (simp add: subseq_rev_drop_many)
    show ?thesis
    proof (cases "order_weight ?x > j \<or> knap orders i (j - order_weight ?x) + order_value ?x \<le> knap orders i j")
      case True
      then have "knap orders (Suc i) j = knap orders i j"
        using jpos by (auto simp: max_def)
      then show ?thesis using ys ys' by auto
    next
      case False
      then have fits: "order_weight ?x \<le> j" by simp
      have k: "knap orders (Suc i) j = knap orders i (j - order_weight ?x) + order_value ?x"
        using jpos False by (auto simp: max_def)
      from Suc.IH [OF i_le, of "j - order_weight ?x"] fits obtain zs where zs:
        "subseq zs (take i orders)" "sum_list (map order_weight zs) \<le> j - order_weight ?x"
        "sum_list (map order_value zs) = knap orders i (j - order_weight ?x)"
        by auto
      have "subseq (zs @ [?x]) (take (Suc i) orders)"
        using zs(1) tk by (simp add: list_emb_append_mono)
      moreover have "sum_list (map order_weight (zs @ [?x])) \<le> j"
        using zs(2) by simp
      moreover have "sum_list (map order_value (zs @ [?x])) = knap orders (Suc i) j"
        using zs(3) k by simp
      ultimately show ?thesis by blast
    qed
  qed
qed

section \<open>The greedy approximation: what it returns and what it writes\<close>

lemma true_div_Inr:
  "true_div a b = Inr q \<longleftrightarrow>
     b \<noteq> 0 \<and> \<bar>a\<bar> < double_overflow * \<bar>b\<bar> \<and> q = of_int a / of_int b"
  by (auto simp: true_div_def)

lemma true_div_zero: "true_div a 0 = Inl ZeroDivisionError"
  by (simp add: true_div_def)

lemma true_div_raises:
  "true_div a b = Inl e \<Longrightarrow> e = ZeroDivisionError \<or> e = OverflowError"
  by (auto simp: true_div_def split: if_splits)

lemma double_overflow_large: "2 ^ 64 \<le> double_overflow"
proof -
  have "(2::int) ^ 64 \<le> 2 ^ 970" by (rule power_increasing) simp_all
  moreover have "(2::int) ^ 1024 = 2 ^ 54 * 2 ^ 970" by (simp flip: power_add)
  then have "(2::int) ^ 970 \<le> 2 ^ 1024 - 2 ^ 970" by simp
  ultimately show ?thesis by (simp add: double_overflow_def)
qed

lemma update_ratios_frame:
  "update_ratios as h = (e, h') \<Longrightarrow>
     order_value (h' a) = order_value (h a) \<and> order_weight (h' a) = order_weight (h a) \<and>
     (a \<notin> set as \<longrightarrow> h' a = h a)"
proof (induction as arbitrary: h)
  case Nil
  then show ?case by simp
next
  case (Cons b bs)
  show ?case
  proof (cases "true_div (order_value (h b)) (order_weight (h b))")
    case (Inl err)
    then show ?thesis using Cons.prems by simp
  next
    case (Inr q)
    let ?h1 = "h(b := (h b)\<lparr>order_ratio := Some q\<rparr>)"
    have "update_ratios bs ?h1 = (e, h')"
      using Cons.prems Inr by simp
    from Cons.IH [OF this] show ?thesis by (cases "a = b") auto
  qed
qed

lemma update_ratios_sets:
  "update_ratios as h = (None, h') \<Longrightarrow> a \<in> set as \<Longrightarrow>
     order_weight (h a) \<noteq> 0 \<and>
     order_ratio (h' a) = Some (of_int (order_value (h a)) / of_int (order_weight (h a)))"
proof (induction as arbitrary: h)
  case Nil
  then show ?case by simp
next
  case (Cons b bs)
  obtain q where q: "true_div (order_value (h b)) (order_weight (h b)) = Inr q"
    using Cons.prems(1)
    by (cases "true_div (order_value (h b)) (order_weight (h b))") simp_all
  then have nz: "order_weight (h b) \<noteq> 0"
    and qv: "q = of_int (order_value (h b)) / of_int (order_weight (h b))"
    by (simp_all add: true_div_Inr)
  let ?h1 = "h(b := (h b)\<lparr>order_ratio := Some q\<rparr>)"
  have run: "update_ratios bs ?h1 = (None, h')"
    using Cons.prems(1) q by simp
  show ?case
  proof (cases "a \<in> set bs")
    case True
    from Cons.IH [OF run True] show ?thesis by (cases "a = b") (auto split: if_splits)
  next
    case False
    then have "a = b" using Cons.prems(2) by simp
    moreover have "h' a = ?h1 a"
      using update_ratios_frame [OF run, of a] False by simp
    ultimately show ?thesis using nz qv by simp
  qed
qed

lemma update_ratios_succeeds:
  assumes "\<forall>a \<in> set as. order_weight (h a) \<noteq> 0 \<and>
     \<bar>order_value (h a)\<bar> < double_overflow * \<bar>order_weight (h a)\<bar>"
  shows "\<exists>h'. update_ratios as h = (None, h')"
  using assms
proof (induction as arbitrary: h)
  case Nil
  then show ?case by simp
next
  case (Cons b bs)
  let ?q = "of_int (order_value (h b)) / of_int (order_weight (h b)) :: rat"
  let ?h1 = "h(b := (h b)\<lparr>order_ratio := Some ?q\<rparr>)"
  have q: "true_div (order_value (h b)) (order_weight (h b)) = Inr ?q"
    using Cons.prems by (simp add: true_div_Inr)
  have "\<forall>a \<in> set bs. order_weight (?h1 a) \<noteq> 0 \<and>
     \<bar>order_value (?h1 a)\<bar> < double_overflow * \<bar>order_weight (?h1 a)\<bar>"
    using Cons.prems by simp
  from Cons.IH [OF this] obtain h' where "update_ratios bs ?h1 = (None, h')"
    by blast
  then show ?case using q by simp
qed

lemma map_e_Inr:
  "\<forall>x \<in> set xs. f x = Inr (g x) \<Longrightarrow> map_e f xs = Inr (map g xs)"
  by (induction xs) simp_all

lemma sorted_by_ratio_perm:
  assumes "\<forall>a \<in> set as. order_ratio (h a) \<noteq> None"
  shows "\<exists>s. sorted_by_ratio h as = Inr s \<and> mset s = mset as"
proof -
  have "\<forall>a \<in> set as. ratio_key h a = Inr (the (order_ratio (h a)))"
    using assms by (auto simp: ratio_key_def)
  then have "map_e (ratio_key h) as = Inr (map (\<lambda>a. the (order_ratio (h a))) as)"
    by (rule map_e_Inr)
  then have "sorted_by_ratio h as =
      Inr (map snd (sort_key (\<lambda>p. - fst p) (zip (map (\<lambda>a. the (order_ratio (h a))) as) as)))"
    by (simp add: sorted_by_ratio_def)
  moreover have "mset (map snd (sort_key (\<lambda>p. - fst p)
      (zip (map (\<lambda>a. the (order_ratio (h a))) as) as))) = mset as"
  proof -
    let ?ks = "map (\<lambda>a. the (order_ratio (h a))) as"
    have "mset (map snd (sort_key (\<lambda>p. - fst p) (zip ?ks as))) =
        image_mset snd (mset (sort_key (\<lambda>p. - fst p) (zip ?ks as)))"
      by (rule mset_map)
    also have "\<dots> = image_mset snd (mset (zip ?ks as))"
      by simp
    also have "\<dots> = mset (map snd (zip ?ks as))"
      by (rule mset_map [symmetric])
    also have "\<dots> = mset as"
      by simp
    finally show ?thesis .
  qed
  ultimately show ?thesis by simp
qed

lemma foldl_counter_add:
  assumes "\<forall>x \<in> set xs. 0 \<le> order_value x \<and> 0 \<le> order_weight x"
    and "0 \<le> c_value acc" "0 \<le> c_weight acc"
  shows "c_value (foldl counter_add acc (map Counter xs)) = c_value acc + sum_list (map order_value xs) \<and>
         c_weight (foldl counter_add acc (map Counter xs)) = c_weight acc + sum_list (map order_weight xs)"
  using assms
proof (induction xs arbitrary: acc)
  case Nil
  then show ?case by simp
next
  case (Cons x xs)
  let ?acc = "counter_add acc (Counter x)"
  have v: "c_value ?acc = c_value acc + order_value x"
    and w: "c_weight ?acc = c_weight acc + order_weight x"
    using Cons.prems by (simp_all add: counter_add_def Counter_def keep_positive_def)
  have "\<forall>y \<in> set xs. 0 \<le> order_value y \<and> 0 \<le> order_weight y"
    using Cons.prems(1) by simp
  moreover have "0 \<le> c_value ?acc" "0 \<le> c_weight ?acc"
    using v w Cons.prems by simp_all
  ultimately show ?case
    using Cons.IH [of ?acc] v w by simp
qed

lemma reduce_payload:
  assumes "xs \<noteq> []" "\<forall>x \<in> set xs. 0 \<le> order_value x \<and> 0 \<le> order_weight x"
  shows "\<exists>p. reduce counter_add (map Counter xs) = Inr p \<and>
           c_value p = sum_list (map order_value xs) \<and>
           c_weight p = sum_list (map order_weight xs)"
proof (cases xs)
  case Nil
  then show ?thesis using assms(1) by simp
next
  case (Cons x ys)
  have "\<forall>y \<in> set ys. 0 \<le> order_value y \<and> 0 \<le> order_weight y"
    "0 \<le> c_value (Counter x)" "0 \<le> c_weight (Counter x)"
    using assms(2) Cons by (simp_all add: Counter_def)
  from foldl_counter_add [OF this] show ?thesis
    using Cons by (simp add: Counter_def)
qed

lemma knap_cong:
  assumes "\<forall>k<i. order_weight (xs ! k) = order_weight (ys ! k) \<and>
                  order_value (xs ! k) = order_value (ys ! k)"
  shows "knap xs i j = knap ys i j"
  using assms by (induction i arbitrary: j) simp_all

lemma fill_sound:
  assumes "\<forall>a \<in> set final \<union> set rest. 0 \<le> order_value (h a) \<and> 0 \<le> order_weight (h a)"
    and "final \<noteq> []"
    and "c_value payload = sum_list (map order_value (map h final))"
    and "c_weight payload = sum_list (map order_weight (map h final))"
    and "c_weight payload \<le> W"
  shows "\<exists>final' payload'. fill h W rest (final, payload) = Inr (final', payload') \<and>
           mset final' \<subseteq># mset final + mset rest \<and>
           sum_list (map order_weight (map h final')) \<le> W \<and>
           c_value payload' = sum_list (map order_value (map h final'))"
  using assms
proof (induction rest arbitrary: final payload)
  case Nil
  then show ?case by simp
next
  case (Cons a rest)
  have nn_rest: "\<forall>b \<in> set final \<union> set rest. 0 \<le> order_value (h b) \<and> 0 \<le> order_weight (h b)"
    using Cons.prems(1) by simp
  show ?case
  proof (cases "c_weight payload = W")
    case True
    then show ?thesis using Cons.prems by simp
  next
    case notfull: False
    show ?thesis
    proof (cases "c_weight payload + order_weight (h a) > W")
      case True
      from Cons.IH [OF nn_rest Cons.prems(2-5)] obtain final' payload' where r:
        "fill h W rest (final, payload) = Inr (final', payload')"
        "mset final' \<subseteq># mset final + mset rest"
        "sum_list (map order_weight (map h final')) \<le> W"
        "c_value payload' = sum_list (map order_value (map h final'))"
        by blast
      have "mset final' \<subseteq># mset final + mset (a # rest)"
        using r(2) by (simp add: mset_subset_add_mset)
      then show ?thesis using r notfull True by simp
    next
      case False
      let ?final2 = "final @ [a]"
      have nn2: "\<forall>x \<in> set (map h ?final2). 0 \<le> order_value x \<and> 0 \<le> order_weight x"
        using Cons.prems(1) by auto
      have "map h ?final2 \<noteq> []" by simp
      from reduce_payload [OF this nn2] obtain p where p:
        "reduce counter_add (map Counter (map h ?final2)) = Inr p"
        "c_value p = sum_list (map order_value (map h ?final2))"
        "c_weight p = sum_list (map order_weight (map h ?final2))"
        by blast
      have red: "reduce counter_add (map (\<lambda>r. Counter (h r)) ?final2) = Inr p"
        using p(1) by (simp add: comp_def)
      have le: "c_weight p \<le> W"
        using p(3) False Cons.prems(4) by simp
      have nn3: "\<forall>b \<in> set ?final2 \<union> set rest. 0 \<le> order_value (h b) \<and> 0 \<le> order_weight (h b)"
        using Cons.prems(1) by simp
      have ne: "?final2 \<noteq> []" by simp
      from Cons.IH [OF nn3 ne p(2) p(3) le] obtain final' payload' where r:
        "fill h W rest (?final2, p) = Inr (final', payload')"
        "mset final' \<subseteq># mset ?final2 + mset rest"
        "sum_list (map order_weight (map h final')) \<le> W"
        "c_value payload' = sum_list (map order_value (map h final'))"
        by blast
      have "fill h W (a # rest) (final, payload) = fill h W rest (?final2, p)"
        using notfull False red by simp
      moreover have "mset final' \<subseteq># mset final + mset (a # rest)"
        using r(2) by simp
      ultimately show ?thesis using r by simp
    qed
  qed
qed

text \<open>
  Whatever order the sort leaves the retained orders in, the loop returns the value of a
  selection that fits the capacity, so its result is bounded by the recurrence. The bound
  therefore does not depend on how ratios compare.
\<close>

lemma fill_bounded_in_any_order:
  assumes "\<forall>a \<in> set orders. 0 \<le> order_value (h a) \<and> 0 < order_weight (h a)"
    and "mset (first # rest) = mset (filter (\<lambda>a. \<not> order_weight (h a) > W) orders)"
  shows "\<exists>final' payload'. fill h W rest ([first], Counter (h first)) = Inr (final', payload') \<and>
           c_value payload' \<le> knap (map h orders) (length orders) W"
proof -
  let ?f = "filter (\<lambda>a. \<not> order_weight (h a) > W) orders"
  let ?s = "first # rest"
  have set_s: "set ?s = set ?f"
    using assms(2) by (rule mset_eq_setD)
  have nn_s: "\<forall>a \<in> set ?s. 0 \<le> order_value (h a) \<and> 0 \<le> order_weight (h a)"
  proof
    fix a assume "a \<in> set ?s"
    then have "a \<in> set orders" using set_s by auto
    then show "0 \<le> order_value (h a) \<and> 0 \<le> order_weight (h a)"
      using assms(1) by (simp add: less_imp_le)
  qed
  have "first \<in> set ?f"
    using set_s by auto
  then have first_fits: "order_weight (h first) \<le> W"
    by simp
  let ?p0 = "Counter (h first)"
  have "\<exists>final' payload'. fill h W rest ([first], ?p0) = Inr (final', payload') \<and>
         mset final' \<subseteq># mset [first] + mset rest \<and>
         sum_list (map order_weight (map h final')) \<le> W \<and>
         c_value payload' = sum_list (map order_value (map h final'))"
    using nn_s first_fits by (intro fill_sound) (simp_all add: Counter_def)
  then obtain final' payload' where r:
    "fill h W rest ([first], ?p0) = Inr (final', payload')"
    "mset final' \<subseteq># mset [first] + mset rest"
    "sum_list (map order_weight (map h final')) \<le> W"
    "c_value payload' = sum_list (map order_value (map h final'))"
    by blast
  have "mset final' \<subseteq># mset ?s"
    using r(2) by simp
  also have "\<dots> = mset ?f" by (rule assms(2))
  also have "\<dots> \<subseteq># mset orders" by simp
  finally have "mset final' \<subseteq># mset orders" .
  then have sub: "mset (map h final') \<subseteq># mset (map h orders)"
    using image_mset_subseteq_mono [of "mset final'" "mset orders" h] by simp
  have pos: "\<forall>x \<in> set (map h orders). 0 < order_weight x"
    using assms(1) by auto
  have wsum: "sum_mset (image_mset order_weight (mset (map h final'))) \<le> W"
    using r(3) by (simp flip: mset_map add: sum_mset_sum_list)
  have "sum_mset (image_mset order_value (mset (map h final')))
      \<le> knap (map h orders) (length (map h orders)) W"
    using knap_dominates [OF pos sub wsum] .
  moreover have "sum_mset (image_mset order_value (mset (map h final'))) = c_value payload'"
    using r(4) by (simp flip: mset_map add: sum_mset_sum_list)
  ultimately have "c_value payload' \<le> knap (map h orders) (length orders) W"
    by simp
  then show ?thesis using r(1) by blast
qed

lemma greedy_sound:
  assumes "\<forall>a \<in> set orders. 0 \<le> order_value (h a) \<and> 0 < order_weight (h a)" and "0 \<le> W"
    and "\<forall>a \<in> set orders. order_weight (h a) \<le> W \<longrightarrow>
           order_value (h a) < double_overflow * order_weight (h a)"
  shows "\<exists>g h'. maximum_value_greedy_approx h orders W = (Inr g, h') \<and>
           g \<le> knap (map h orders) (length orders) W"
proof -
  let ?f = "filter (\<lambda>a. \<not> order_weight (h a) > W) orders"
  show ?thesis
  proof (cases "?f = []")
    case True
    then show ?thesis
      using knap_ge_0 [of "map h orders" "length orders" W]
      by (simp add: maximum_value_greedy_approx_def)
  next
    case nonempty: False
    have "\<forall>a \<in> set ?f. order_weight (h a) \<noteq> 0 \<and>
        \<bar>order_value (h a)\<bar> < double_overflow * \<bar>order_weight (h a)\<bar>"
    proof
      fix a assume "a \<in> set ?f"
      then have a: "a \<in> set orders" "order_weight (h a) \<le> W" by simp_all
      then have "0 \<le> order_value (h a)" "0 < order_weight (h a)"
        "order_value (h a) < double_overflow * order_weight (h a)"
        using assms(1,3) by simp_all
      then show "order_weight (h a) \<noteq> 0 \<and>
          \<bar>order_value (h a)\<bar> < double_overflow * \<bar>order_weight (h a)\<bar>"
        by simp
    qed
    from update_ratios_succeeds [OF this] obtain h' where upd: "update_ratios ?f h = (None, h')"
      by blast
    have same: "order_value (h' a) = order_value (h a)" "order_weight (h' a) = order_weight (h a)" for a
      using update_ratios_frame [OF upd, of a] by simp_all
    have "\<forall>a \<in> set ?f. order_ratio (h' a) \<noteq> None"
      using update_ratios_sets [OF upd] by simp
    from sorted_by_ratio_perm [OF this] obtain s where s:
      "sorted_by_ratio h' ?f = Inr s" "mset s = mset ?f"
      by blast
    have s_ne: "s \<noteq> []"
      using s(2) nonempty by (metis mset_zero_iff)
    then obtain first rest where sfr: "s = first # rest"
      by (cases s) auto
    have get: "py_get s 0 = Inr first"
      using sfr py_get_nat [of 0 s] by simp
    have red0: "reduce counter_add (map (\<lambda>r. Counter (h' r)) [first]) = Inr (Counter (h' first))"
      by simp
    have valid': "\<forall>a \<in> set orders. 0 \<le> order_value (h' a) \<and> 0 < order_weight (h' a)"
      using assms(1) same by simp
    have perm': "mset (first # rest) = mset (filter (\<lambda>a. \<not> order_weight (h' a) > W) orders)"
      using s(2) sfr same by simp
    from fill_bounded_in_any_order [OF valid' perm'] obtain final' payload' where r:
      "fill h' W rest ([first], Counter (h' first)) = Inr (final', payload')"
      "c_value payload' \<le> knap (map h' orders) (length orders) W"
      by blast
    have res: "maximum_value_greedy_approx h orders W = (Inr (c_value payload'), h')"
      using nonempty upd s(1) get red0 r(1) sfr
      by (simp add: maximum_value_greedy_approx_def del: reduce.simps fill.simps)
    have "knap (map h' orders) (length orders) W = knap (map h orders) (length orders) W"
      using same by (intro knap_cong) simp
    then have "c_value payload' \<le> knap (map h orders) (length orders) W"
      using r(2) by simp
    then show ?thesis using res by simp
  qed
qed

lemma knap_skip_heavy:
  "\<forall>k. i \<le> k \<and> k < i + d \<longrightarrow> j < order_weight (xs ! k) \<Longrightarrow> knap xs (i + d) j = knap xs i j"
  by (induction d) (simp_all add: knap_zero_capacity)

lemma greedy_reads_filtered_only:
  assumes "filter (\<lambda>a. \<not> order_weight (h a) > W) orders1 =
           filter (\<lambda>a. \<not> order_weight (h a) > W) orders2"
  shows "maximum_value_greedy_approx h orders1 W = maximum_value_greedy_approx h orders2 W"
  using assms by (simp add: maximum_value_greedy_approx_def)

lemma greedy_store_eval:
  "fst (maximum_value_greedy_approx greedy_store [0, 1, 2] 50) = Inr 160"
  by code_simp

lemma dp_store_eval:
  "maximum_value_dynamic_solution_memoized (map greedy_store [0, 1, 2]) 50 = Inr 220"
  by code_simp

lemma padded_dp: "maximum_value (map greedy_store ([0, 1, 2] @ replicate t 3)) 50 = Inr 220"
proof -
  let ?base = "map greedy_store [0, 1, 2]"
  let ?xs = "map greedy_store ([0, 1, 2] @ replicate t 3)"
  have xs: "?xs = ?base @ replicate t (mk_order 1 51)"
    by (simp add: greedy_store_def)
  have "\<forall>x \<in> set ?xs. 0 \<le> order_weight x"
    unfolding xs by (auto simp: greedy_store_def mk_order_def)
  then have "maximum_value ?xs 50 = Inr (knap ?xs (length ?xs) 50)"
    by (intro maximum_value_knap) simp_all
  moreover have "length ?xs = 3 + t" by simp
  ultimately have mv: "maximum_value ?xs 50 = Inr (knap ?xs (3 + t) 50)"
    by (simp only:)
  have "knap ?xs (3 + t) 50 = knap ?xs 3 50"
  proof (rule knap_skip_heavy, intro allI impI)
    fix k assume "3 \<le> k \<and> k < 3 + t"
    then have "k - 3 < t" "\<not> k < 3" by linarith+
    then have "?xs ! k = mk_order 1 51"
      unfolding xs by (simp add: nth_append numeral_3_eq_3)
    then show "50 < order_weight (?xs ! k)"
      by (simp add: mk_order_def)
  qed
  also have "knap ?xs 3 50 = knap ?base 3 50"
    unfolding xs by (rule knap_append) simp
  also have "knap ?base 3 50 = 220"
    by code_simp
  finally have "knap ?xs (3 + t) 50 = 220" .
  then show ?thesis by (simp only: mv)
qed

lemma padded_greedy:
  "fst (maximum_value_greedy_approx greedy_store ([0, 1, 2] @ replicate t 3) 50) = Inr 160"
proof -
  have "filter (\<lambda>a. \<not> order_weight (greedy_store a) > 50) ([0, 1, 2] @ replicate t 3) =
        filter (\<lambda>a. \<not> order_weight (greedy_store a) > 50) [0, 1, 2]"
    by (simp add: greedy_store_def mk_order_def)
  from greedy_reads_filtered_only [OF this] show ?thesis
    using greedy_store_eval by simp
qed

lemma greedy_final_store:
  "snd (maximum_value_greedy_approx h orders W) =
     (if filter (\<lambda>a. \<not> order_weight (h a) > W) orders = [] then h
      else snd (update_ratios (filter (\<lambda>a. \<not> order_weight (h a) > W) orders) h))"
  by (cases "update_ratios (filter (\<lambda>a. \<not> order_weight (h a) > W) orders) h")
     (auto simp add: maximum_value_greedy_approx_def Let_def split: option.splits)

lemma greedy_returns_after_update:
  assumes "fst (maximum_value_greedy_approx h orders W) = Inr g"
    and "filter (\<lambda>a. \<not> order_weight (h a) > W) orders \<noteq> []"
  shows "fst (update_ratios (filter (\<lambda>a. \<not> order_weight (h a) > W) orders) h) = None"
  using assms
  by (cases "update_ratios (filter (\<lambda>a. \<not> order_weight (h a) > W) orders) h")
     (auto simp add: maximum_value_greedy_approx_def Let_def split: option.splits)

lemma greedy_frame:
  assumes "maximum_value_greedy_approx h orders W = (r, h')"
  shows "order_value (h' a) = order_value (h a) \<and> order_weight (h' a) = order_weight (h a) \<and>
         (a \<notin> set orders \<or> W < order_weight (h a) \<longrightarrow> h' a = h a)"
proof -
  let ?f = "filter (\<lambda>a. \<not> order_weight (h a) > W) orders"
  have h': "h' = (if ?f = [] then h else snd (update_ratios ?f h))"
    using greedy_final_store [of h orders W] assms by simp
  show ?thesis
  proof (cases "?f = []")
    case True
    then show ?thesis using h' by simp
  next
    case False
    then have "update_ratios ?f h = (fst (update_ratios ?f h), h')"
      using h' by simp
    from update_ratios_frame [OF this, of a] show ?thesis by auto
  qed
qed

lemma greedy_sets_ratio:
  assumes "maximum_value_greedy_approx h orders W = (Inr g, h')"
    and "a \<in> set orders" and "order_weight (h a) \<le> W"
  shows "order_ratio (h' a) = Some (of_int (order_value (h a)) / of_int (order_weight (h a)))"
proof -
  let ?f = "filter (\<lambda>a. \<not> order_weight (h a) > W) orders"
  have mem: "a \<in> set ?f" using assms(2,3) by simp
  then have ne: "?f \<noteq> []" by (metis empty_iff list.set(1))
  have "h' = snd (update_ratios ?f h)"
    using greedy_final_store [of h orders W] assms(1) ne by simp
  moreover have "fst (update_ratios ?f h) = None"
    using greedy_returns_after_update [of h orders W g] assms(1) ne by simp
  ultimately have "update_ratios ?f h = (None, h')"
    by (simp add: prod_eq_iff)
  from update_ratios_sets [OF this mem] show ?thesis by simp
qed

lemma update_ratios_raises:
  "\<exists>a \<in> set as. order_weight (h a) = 0 \<Longrightarrow>
     fst (update_ratios as h) = Some ZeroDivisionError \<or>
     fst (update_ratios as h) = Some OverflowError"
proof (induction as arbitrary: h)
  case Nil
  then show ?case by simp
next
  case (Cons b bs)
  show ?case
  proof (cases "true_div (order_value (h b)) (order_weight (h b))")
    case (Inl err)
    then show ?thesis using true_div_raises [OF Inl] by auto
  next
    case (Inr q)
    let ?h1 = "h(b := (h b)\<lparr>order_ratio := Some q\<rparr>)"
    have "order_weight (h b) \<noteq> 0"
      using Inr by (simp add: true_div_Inr)
    with Cons.prems obtain a where a: "a \<in> set bs" "order_weight (h a) = 0"
      by auto
    then have "order_weight (?h1 a) = 0"
      by auto
    then have "\<exists>a \<in> set bs. order_weight (?h1 a) = 0"
      using a(1) by blast
    then have "fst (update_ratios bs ?h1) = Some ZeroDivisionError \<or>
        fst (update_ratios bs ?h1) = Some OverflowError"
      by (rule Cons.IH)
    moreover have "update_ratios (b # bs) h = update_ratios bs ?h1"
      using Inr by simp
    ultimately show ?thesis by (simp only:)
  qed
qed

lemma greedy_raises_on_zero_weight:
  assumes "a \<in> set orders" "order_weight (h a) = 0" "0 \<le> W"
  shows "fst (maximum_value_greedy_approx h orders W) = Inl ZeroDivisionError \<or>
         fst (maximum_value_greedy_approx h orders W) = Inl OverflowError"
proof -
  let ?f = "filter (\<lambda>a. \<not> order_weight (h a) > W) orders"
  have mem: "a \<in> set ?f" using assms by simp
  then have ne: "?f \<noteq> []" by (metis empty_iff list.set(1))
  have "\<exists>a \<in> set ?f. order_weight (h a) = 0"
    using mem assms(2) by blast
  then have "fst (update_ratios ?f h) = Some ZeroDivisionError \<or>
      fst (update_ratios ?f h) = Some OverflowError"
    by (rule update_ratios_raises)
  then show ?thesis
    using ne by (cases "update_ratios ?f h") (auto simp add: maximum_value_greedy_approx_def Let_def)
qed

section \<open>The exhaustive search finds the optimum\<close>

lemma set_combinations:
  "set (combinations xs k) = {ys. subseq ys xs \<and> length ys = k}"
proof (induction xs k rule: combinations.induct)
  case (1 xs)
  then show ?case by auto
next
  case (2 k)
  then show ?case by auto
next
  case (3 x xs k)
  show ?case
  proof (intro set_eqI iffI)
    fix ys assume "ys \<in> set (combinations (x # xs) (Suc k))"
    then consider zs where "ys = x # zs" "zs \<in> set (combinations xs k)"
      | "ys \<in> set (combinations xs (Suc k))"
      by auto
    then show "ys \<in> {ys. subseq ys (x # xs) \<and> length ys = Suc k}"
    proof cases
      case 1
      then show ?thesis using "3.IH"(1) by simp
    next
      case 2
      then show ?thesis using "3.IH"(2) by (auto intro: list_emb_Cons)
    qed
  next
    fix ys assume "ys \<in> {ys. subseq ys (x # xs) \<and> length ys = Suc k}"
    then have a: "subseq ys (x # xs)" "length ys = Suc k" by simp_all
    then obtain y zs where ys: "ys = y # zs" by (cases ys) auto
    show "ys \<in> set (combinations (x # xs) (Suc k))"
    proof (cases "y = x")
      case True
      then have "subseq zs xs" "length zs = k"
        using a ys by simp_all
      then have "zs \<in> set (combinations xs k)"
        using "3.IH"(1) by simp
      then show ?thesis using ys True by simp
    next
      case False
      then have "subseq ys xs"
        using a(1) ys by (simp add: subseq_Cons2_neq)
      then have "ys \<in> set (combinations xs (Suc k))"
        using "3.IH"(2) a(2) by simp
      then show ?thesis by simp
    qed
  qed
qed

lemma naive_combinations_result:
  assumes "\<forall>c \<in> set cs. c \<noteq> [] \<and> (\<forall>x \<in> set c. 0 \<le> order_value x \<and> 0 \<le> order_weight x)"
  shows "\<exists>r. naive_combinations W cs mx = Inr r \<and> mx \<le> r \<and>
           (\<forall>c \<in> set cs. sum_list (map order_weight c) \<le> W \<longrightarrow> sum_list (map order_value c) \<le> r) \<and>
           (r = mx \<or> (\<exists>c \<in> set cs. sum_list (map order_weight c) \<le> W \<and>
                          r = sum_list (map order_value c)))"
  using assms
proof (induction cs arbitrary: mx)
  case Nil
  then show ?case by simp
next
  case (Cons c cs)
  have c: "c \<noteq> []" "\<forall>x \<in> set c. 0 \<le> order_value x \<and> 0 \<le> order_weight x"
    using Cons.prems by simp_all
  from reduce_payload [OF c] obtain p where p:
    "reduce counter_add (map Counter c) = Inr p"
    "c_value p = sum_list (map order_value c)"
    "c_weight p = sum_list (map order_weight c)"
    by blast
  let ?mx = "if c_weight p \<le> W \<and> c_value p > mx then c_value p else mx"
  have step: "naive_combinations W (c # cs) mx = naive_combinations W cs ?mx"
    using p(1) by simp
  have rest: "\<forall>c \<in> set cs. c \<noteq> [] \<and> (\<forall>x \<in> set c. 0 \<le> order_value x \<and> 0 \<le> order_weight x)"
    using Cons.prems by simp
  from Cons.IH [OF rest, of ?mx] obtain r where r:
    "naive_combinations W cs ?mx = Inr r" "?mx \<le> r"
    "\<forall>c \<in> set cs. sum_list (map order_weight c) \<le> W \<longrightarrow> sum_list (map order_value c) \<le> r"
    "r = ?mx \<or> (\<exists>c \<in> set cs. sum_list (map order_weight c) \<le> W \<and>
                    r = sum_list (map order_value c))"
    by blast
  have "mx \<le> r"
    using r(2) by (simp split: if_splits)
  moreover have "sum_list (map order_weight c) \<le> W \<longrightarrow> sum_list (map order_value c) \<le> r"
    using r(2) p(2,3) by (auto split: if_splits)
  moreover have "r = mx \<or> (\<exists>c' \<in> set (c # cs). sum_list (map order_weight c') \<le> W \<and>
                    r = sum_list (map order_value c'))"
    using r(4) p(2,3) by (auto split: if_splits)
  ultimately show ?case
    using step r(1) r(3) by simp
qed

lemma naive_lengths_result:
  assumes "\<forall>x \<in> set fo. 0 \<le> order_value x \<and> 0 \<le> order_weight x"
    and "\<forall>len \<in> set lens. 0 < len"
  shows "\<exists>r. naive_lengths W fo lens mx = Inr r \<and> mx \<le> r \<and>
           (\<forall>len \<in> set lens. \<forall>c \<in> set (combinations fo len).
              sum_list (map order_weight c) \<le> W \<longrightarrow> sum_list (map order_value c) \<le> r) \<and>
           (r = mx \<or> (\<exists>len \<in> set lens. \<exists>c \<in> set (combinations fo len).
              sum_list (map order_weight c) \<le> W \<and> r = sum_list (map order_value c)))"
  using assms(2)
proof (induction lens arbitrary: mx)
  case Nil
  then show ?case by simp
next
  case (Cons len lens)
  have len: "0 < len" using Cons.prems by simp
  have "\<forall>c \<in> set (combinations fo len).
      c \<noteq> [] \<and> (\<forall>x \<in> set c. 0 \<le> order_value x \<and> 0 \<le> order_weight x)"
  proof
    fix c assume "c \<in> set (combinations fo len)"
    then have sc: "subseq c fo" "length c = len"
      by (simp_all add: set_combinations)
    then have "set c \<subseteq> set fo"
      by (auto dest: list_emb_set)
    then show "c \<noteq> [] \<and> (\<forall>x \<in> set c. 0 \<le> order_value x \<and> 0 \<le> order_weight x)"
      using sc(2) len assms(1) by auto
  qed
  from naive_combinations_result [OF this, of W mx] obtain r1 where r1:
    "naive_combinations W (combinations fo len) mx = Inr r1" "mx \<le> r1"
    "\<forall>c \<in> set (combinations fo len).
        sum_list (map order_weight c) \<le> W \<longrightarrow> sum_list (map order_value c) \<le> r1"
    "r1 = mx \<or> (\<exists>c \<in> set (combinations fo len). sum_list (map order_weight c) \<le> W \<and>
                    r1 = sum_list (map order_value c))"
    by blast
  have rest: "\<forall>len \<in> set lens. 0 < len" using Cons.prems by simp
  from Cons.IH [OF rest, of r1] obtain r where r:
    "naive_lengths W fo lens r1 = Inr r" "r1 \<le> r"
    "\<forall>len \<in> set lens. \<forall>c \<in> set (combinations fo len).
        sum_list (map order_weight c) \<le> W \<longrightarrow> sum_list (map order_value c) \<le> r"
    "r = r1 \<or> (\<exists>len \<in> set lens. \<exists>c \<in> set (combinations fo len).
        sum_list (map order_weight c) \<le> W \<and> r = sum_list (map order_value c))"
    by blast
  have run: "naive_lengths W fo (len # lens) mx = Inr r"
    using r1(1) r(1) by simp
  have lo: "mx \<le> r" using r1(2) r(2) by simp
  have up: "\<forall>l \<in> set (len # lens). \<forall>c \<in> set (combinations fo l).
      sum_list (map order_weight c) \<le> W \<longrightarrow> sum_list (map order_value c) \<le> r"
  proof (intro ballI impI)
    fix l c assume a: "l \<in> set (len # lens)" "c \<in> set (combinations fo l)"
      "sum_list (map order_weight c) \<le> W"
    show "sum_list (map order_value c) \<le> r"
    proof (cases "l = len")
      case True
      then have "sum_list (map order_value c) \<le> r1" using r1(3) a by simp
      then show ?thesis using r(2) by simp
    next
      case False
      then have "l \<in> set lens" using a(1) by simp
      then show ?thesis using r(3) a by blast
    qed
  qed
  have att: "r = mx \<or> (\<exists>l \<in> set (len # lens). \<exists>c \<in> set (combinations fo l).
      sum_list (map order_weight c) \<le> W \<and> r = sum_list (map order_value c))"
  proof (cases "r = mx")
    case True
    then show ?thesis by simp
  next
    case False
    then consider "r = r1" "r1 \<noteq> mx"
      | "\<exists>len \<in> set lens. \<exists>c \<in> set (combinations fo len).
          sum_list (map order_weight c) \<le> W \<and> r = sum_list (map order_value c)"
      using r(4) by auto
    then show ?thesis
    proof cases
      case 1
      then obtain c where "c \<in> set (combinations fo len)" "sum_list (map order_weight c) \<le> W"
        "r1 = sum_list (map order_value c)"
        using r1(4) by auto
      then show ?thesis using 1(1) by auto
    next
      case 2
      then show ?thesis by auto
    qed
  qed
  show ?case using run lo up att by blast
qed

lemma weight_le_sum:
  assumes "\<forall>x \<in> set ys. 0 \<le> order_weight x" "y \<in> set ys"
  shows "order_weight y \<le> sum_list (map order_weight ys)"
proof -
  have nn: "0 \<le> sum_list (map order_weight zs)" if "\<forall>x \<in> set zs. 0 \<le> order_weight x" for zs
    using that by (induction zs) simp_all
  show ?thesis
    using assms
  proof (induction ys)
    case Nil
    then show ?case by simp
  next
    case (Cons z zs)
    have rest: "\<forall>x \<in> set zs. 0 \<le> order_weight x" and z: "0 \<le> order_weight z"
      using Cons.prems(1) by simp_all
    show ?case
    proof (cases "y = z")
      case True
      then show ?thesis using nn [OF rest] by simp
    next
      case False
      then have "y \<in> set zs" using Cons.prems(2) by simp
      from Cons.IH [OF rest this] show ?thesis using z by simp
    qed
  qed
qed

lemma naive_is_knap:
  assumes "\<forall>x \<in> set orders. 0 \<le> order_value x \<and> 0 < order_weight x" and "0 \<le> W"
  shows "maximum_value_naive orders W = Inr (knap orders (length orders) W)"
proof -
  let ?fo = "filter (\<lambda>x. \<not> order_weight x > W) orders"
  let ?lens = "rev [1 ..< length ?fo + 1]"
  let ?k = "knap orders (length orders) W"
  have pos: "\<forall>x \<in> set orders. 0 < order_weight x"
    using assms(1) by simp
  have nn_fo: "\<forall>x \<in> set ?fo. 0 \<le> order_value x \<and> 0 \<le> order_weight x"
    using assms(1) by (auto simp: less_imp_le)
  have lens: "\<forall>len \<in> set ?lens. 0 < len"
    by auto
  from naive_lengths_result [OF nn_fo lens, of W 0] obtain r where r:
    "naive_lengths W ?fo ?lens 0 = Inr r" "0 \<le> r"
    "\<forall>len \<in> set ?lens. \<forall>c \<in> set (combinations ?fo len).
        sum_list (map order_weight c) \<le> W \<longrightarrow> sum_list (map order_value c) \<le> r"
    "r = 0 \<or> (\<exists>len \<in> set ?lens. \<exists>c \<in> set (combinations ?fo len).
        sum_list (map order_weight c) \<le> W \<and> r = sum_list (map order_value c))"
    by blast
  have run: "maximum_value_naive orders W = Inr r"
    using r(1) by (simp add: maximum_value_naive_def Let_def)
  have upper: "r \<le> ?k"
  proof (cases "r = 0")
    case True
    then show ?thesis using knap_ge_0 [of orders "length orders" W] by simp
  next
    case False
    then obtain len c where c: "c \<in> set (combinations ?fo len)"
      "sum_list (map order_weight c) \<le> W" "r = sum_list (map order_value c)"
      using r(4) by blast
    have "subseq c ?fo"
      using c(1) by (simp add: set_combinations)
    then have "subseq c orders"
      using subseq_filter_left [of "\<lambda>x. \<not> order_weight x > W" orders]
      by (rule subseq_order.order_trans)
    then have sub: "mset c \<subseteq># mset orders"
      by (rule subseq_mset_le)
    have "sum_mset (image_mset order_weight (mset c)) \<le> W"
      using c(2) by (simp flip: mset_map add: sum_mset_sum_list)
    from knap_dominates [OF pos sub this]
    have "sum_list (map order_value c) \<le> ?k"
      by (simp flip: mset_map add: sum_mset_sum_list)
    then show ?thesis using c(3) by simp
  qed
  have lower: "?k \<le> r"
  proof -
    from knap_achieved [OF order_refl assms(2), of orders] obtain ys where ys:
      "subseq ys orders" "sum_list (map order_weight ys) \<le> W"
      "sum_list (map order_value ys) = ?k"
      by auto
    show ?thesis
    proof (cases "ys = []")
      case True
      then show ?thesis using ys(3) r(2) by simp
    next
      case False
      have "set ys \<subseteq> set orders"
        using ys(1) by (auto dest: list_emb_set)
      then have nn: "\<forall>x \<in> set ys. 0 \<le> order_weight x"
        using pos by (auto simp: less_imp_le)
      have "\<forall>y \<in> set ys. \<not> order_weight y > W"
      proof
        fix y assume "y \<in> set ys"
        from weight_le_sum [OF nn this] ys(2) show "\<not> order_weight y > W" by simp
      qed
      then have "filter (\<lambda>x. \<not> order_weight x > W) ys = ys"
        by (simp add: filter_id_conv)
      then have sfo: "subseq ys ?fo"
        using subseq_filter [OF ys(1), of "\<lambda>x. \<not> order_weight x > W"] by simp
      then have "length ys \<le> length ?fo"
        by (rule list_emb_length)
      moreover have "0 < length ys" using False by simp
      ultimately have "1 \<le> length ys \<and> length ys < length ?fo + 1" by linarith
      then have "length ys \<in> set ?lens" by (simp del: upt_Suc) 
      moreover have "ys \<in> set (combinations ?fo (length ys))"
        using sfo by (simp add: set_combinations)
      ultimately have "sum_list (map order_value ys) \<le> r"
        using r(3) ys(2) by blast
      then show ?thesis using ys(3) by simp
    qed
  qed
  show ?thesis using run upper lower by simp
qed

lemma naive_agrees_on_positive_weights:
  assumes "\<forall>x \<in> set orders. 0 \<le> order_value x \<and> 0 < order_weight x" and "0 \<le> W"
  shows "maximum_value_naive orders W = maximum_value_dynamic_solution_memoized orders W"
proof -
  have "\<forall>x \<in> set orders. 0 \<le> order_weight x"
    using assms(1) by (auto simp: less_imp_le)
  from dp_correct [OF assms(2) this] naive_is_knap [OF assms] show ?thesis by simp
qed

section \<open>Claims about the dispatcher and the dynamic programme\<close>

text \<open>
  The interpreter's recursion limit is a resource bound outside this model: the theorems
  below describe \<open>m\<close> as the source defines it, on a stack deep enough for
  \<open>len(orders)\<close> nested calls.
\<close>

text \<open>
  Claim C3. For the orders \<open>[{value:10,weight:5},{value:40,weight:4},{value:30,weight:6},
  {value:50,weight:3}]\<close> and capacity 10, \<open>maximum_value\<close> returns exactly 90.
\<close>

theorem canonical_scenario:
  "maximum_value [mk_order 10 5, mk_order 40 4, mk_order 30 6, mk_order 50 3] 10 = Inr 90"
  by code_simp





text \<open>
  Claim C9. Zero cases: \<open>maximum_value([], W) = 0\<close> for every capacity \<open>W \<ge> 0\<close>;
  \<open>maximum_value(orders, 0) = 0\<close> for every list of orders; and
  \<open>maximum_value(orders, W) = 0\<close> when \<open>W \<ge> 0\<close> and every order is heavier than \<open>W\<close>.
\<close>

theorem zero_cases:
  "(0 \<le> W \<longrightarrow> maximum_value [] W = Inr 0) \<and>
   maximum_value orders 0 = Inr 0 \<and>
   (0 \<le> W \<and> (\<forall>x \<in> set orders. W < order_weight x) \<longrightarrow> maximum_value orders W = Inr 0)"
proof (intro conjI impI)
  assume "0 \<le> W"
  then show "maximum_value [] W = Inr 0"
    using maximum_value_knap [of W "[]"] by simp
next
  show "maximum_value orders 0 = Inr 0"
    by (rule maximum_value_capacity_zero)
next
  assume a: "0 \<le> W \<and> (\<forall>x \<in> set orders. W < order_weight x)"
  then have "\<forall>x \<in> set orders. 0 \<le> order_weight x"
    by auto
  moreover have "\<forall>k<length orders. order_weight (orders ! k) > W"
    using a by simp
  ultimately show "maximum_value orders W = Inr 0"
    using a maximum_value_knap [of W orders] knap_heavy [of "length orders" W orders] by simp
qed

theorem zero_cases_witness:
  "(0::int) \<le> 7 \<and> maximum_value [] 7 = Inr 0 \<and>
   maximum_value canonical_orders 0 = Inr 0 \<and>
   (0::int) \<le> 2 \<and> maximum_value canonical_orders 2 = Inr 0"
  using zero_cases [of 7 canonical_orders] zero_cases [of 2 canonical_orders]
  by (simp add: canonical_orders_def mk_order_def)



text \<open>
  Claim C2, as stated: there is a threshold \<open>t\<close> such that the dispatcher returns the
  greedy result on every input with more than \<open>t\<close> orders and the result of the
  dynamic programme on every other input. The statement is false: whatever \<open>t\<close> is,
  the three orders of the strictness scenario followed by \<open>t\<close> orders too heavy for the
  capacity 50 form a longer input on which the dispatcher returns 220 and the greedy
  approximation 160.
\<close>

theorem dispatcher_never_switches:
  "\<not> (\<exists>t::nat. \<forall>h orders W.
        (t < length orders \<longrightarrow>
           maximum_value (map h orders) W = fst (maximum_value_greedy_approx h orders W)) \<and>
        (length orders \<le> t \<longrightarrow>
           maximum_value (map h orders) W =
           maximum_value_dynamic_solution_memoized (map h orders) W))"
proof
  assume "\<exists>t::nat. \<forall>h orders W.
        (t < length orders \<longrightarrow>
           maximum_value (map h orders) W = fst (maximum_value_greedy_approx h orders W)) \<and>
        (length orders \<le> t \<longrightarrow>
           maximum_value (map h orders) W =
           maximum_value_dynamic_solution_memoized (map h orders) W)"
  then obtain t :: nat where t: "\<And>h orders W. t < length orders \<Longrightarrow>
      maximum_value (map h orders) W = fst (maximum_value_greedy_approx h orders W)"
    by blast
  have "t < length ([0, 1, 2] @ replicate t (3::nat))" by simp
  from t [OF this, of greedy_store 50] show False
    using padded_dp [of t] padded_greedy [of t] by simp
qed

text \<open>
  Claim C2, amended: the dispatcher returns the result of the memoized dynamic programme on
  every input, whatever the number of orders; it has no threshold and never selects the
  greedy approximation.
\<close>

theorem dispatcher_always_dynamic:
  "maximum_value orders maximum_weight =
     maximum_value_dynamic_solution_memoized orders maximum_weight"
  by (simp add: maximum_value_def)

section \<open>Claims about the greedy approximation\<close>

text \<open>
  Claim C4, as stated: for every list of orders with non-negative values and positive
  weights and every capacity \<open>W \<ge> 0\<close>, the result of the greedy approximation is at
  most the result of the dynamic programme. The statement is false: on the single order of
  value \<open>10 ^ 400\<close> and weight 1, at capacity 1, the dynamic programme returns
  \<open>10 ^ 400\<close> and the greedy approximation raises \<open>OverflowError\<close>, because the ratio
  does not fit a double.
\<close>

theorem greedy_overflows_on_huge_value:
  "0 \<le> order_value (huge_value_store 0) \<and> 0 < order_weight (huge_value_store 0) \<and>
   fst (maximum_value_greedy_approx huge_value_store [0] 1) = Inl OverflowError \<and>
   maximum_value_dynamic_solution_memoized (map huge_value_store [0]) 1 = Inr (10 ^ 400)"
  by code_simp

text \<open>
  Claim C4, amended: for every list of orders with non-negative integer values and positive
  integer weights and every capacity \<open>W \<ge> 0\<close>, if every order that is not heavier than
  the capacity has a value below \<open>2 ^ 1024 - 2 ^ 970\<close> times its weight (so that its ratio
  fits a double), then the greedy approximation and the dynamic programme both return, and
  the greedy result is at most the result of the dynamic programme. The inequality is strict
  for the orders \<open>[{value:60,weight:10},{value:100,weight:20},{value:120,weight:30}]\<close> at
  capacity 50, where the dynamic programme returns 220 and the greedy approximation 160.

  The bound does not depend on the order in which the ratios sort the orders (lemma
  \<open>fill_bounded_in_any_order\<close>), so it is not affected by the rounding of the ratios.
  With integer values the sums of values are exact; sums of float values are rounded and
  are not covered.
\<close>

theorem greedy_is_lower_bound:
  "((\<forall>a \<in> set orders. 0 \<le> order_value (h a) \<and> 0 < order_weight (h a)) \<and> 0 \<le> W \<and>
    (\<forall>a \<in> set orders. order_weight (h a) \<le> W \<longrightarrow>
        order_value (h a) < double_overflow * order_weight (h a)) \<longrightarrow>
      (\<exists>g d h'. maximum_value_greedy_approx h orders W = (Inr g, h') \<and>
         maximum_value_dynamic_solution_memoized (map h orders) W = Inr d \<and> g \<le> d)) \<and>
   (\<exists>g d. fst (maximum_value_greedy_approx greedy_store [0, 1, 2] 50) = Inr g \<and>
      maximum_value_dynamic_solution_memoized (map greedy_store [0, 1, 2]) 50 = Inr d \<and>
      g = 160 \<and> d = 220 \<and> g < d)"
proof (intro conjI impI)
  assume a: "(\<forall>a \<in> set orders. 0 \<le> order_value (h a) \<and> 0 < order_weight (h a)) \<and> 0 \<le> W \<and>
    (\<forall>a \<in> set orders. order_weight (h a) \<le> W \<longrightarrow>
        order_value (h a) < double_overflow * order_weight (h a))"
  then have "\<forall>x \<in> set (map h orders). 0 \<le> order_weight x"
    by (auto simp: less_imp_le)
  then have "maximum_value_dynamic_solution_memoized (map h orders) W =
      Inr (knap (map h orders) (length orders) W)"
    using dp_correct [of W "map h orders"] a by simp
  moreover have "\<exists>g h'. maximum_value_greedy_approx h orders W = (Inr g, h') \<and>
      g \<le> knap (map h orders) (length orders) W"
    using a by (intro greedy_sound) simp_all
  ultimately show "\<exists>g d h'. maximum_value_greedy_approx h orders W = (Inr g, h') \<and>
      maximum_value_dynamic_solution_memoized (map h orders) W = Inr d \<and> g \<le> d"
    by auto
next
  show "\<exists>g d. fst (maximum_value_greedy_approx greedy_store [0, 1, 2] 50) = Inr g \<and>
      maximum_value_dynamic_solution_memoized (map greedy_store [0, 1, 2]) 50 = Inr d \<and>
      g = 160 \<and> d = 220 \<and> g < d"
    using greedy_store_eval dp_store_eval by simp
qed

theorem greedy_is_lower_bound_witness:
  "(0::int) \<le> 50 \<and> (60::int) < double_overflow * 10 \<and> (100::int) < double_overflow * 20 \<and>
   (120::int) < double_overflow * 30 \<and>
   (\<exists>g d h'. maximum_value_greedy_approx greedy_store [0, 1, 2] 50 = (Inr g, h') \<and>
      maximum_value_dynamic_solution_memoized (map greedy_store [0, 1, 2]) 50 = Inr d \<and> g \<le> d)"
proof -
  have small: "(60::int) < double_overflow * 10" "(100::int) < double_overflow * 20"
    "(120::int) < double_overflow * 30"
    using double_overflow_large by simp_all
  then have hyp: "(\<forall>a \<in> set [0, 1, 2]. 0 \<le> order_value (greedy_store a) \<and>
        0 < order_weight (greedy_store a)) \<and> (0::int) \<le> 50 \<and>
      (\<forall>a \<in> set [0, 1, 2]. order_weight (greedy_store a) \<le> 50 \<longrightarrow>
        order_value (greedy_store a) < double_overflow * order_weight (greedy_store a))"
    by (simp add: greedy_store_def mk_order_def)
  from greedy_is_lower_bound [of "[0, 1, 2]" greedy_store 50] hyp
  have "\<exists>g d h'. maximum_value_greedy_approx greedy_store [0, 1, 2] 50 = (Inr g, h') \<and>
      maximum_value_dynamic_solution_memoized (map greedy_store [0, 1, 2]) 50 = Inr d \<and> g \<le> d"
    by blast
  then show ?thesis using small by simp
qed

text \<open>
  Claim C5, as stated: no solver changes the caller's orders. The statement is false for the
  greedy approximation: the first order of the strictness scenario has no ratio before the
  call and the ratio 6 after it.
\<close>

theorem greedy_mutates_orders:
  "order_ratio (greedy_store 0) = None \<and>
   order_ratio (snd (maximum_value_greedy_approx greedy_store [0, 1, 2] 50) 0) = Some 6"
  by code_simp

text \<open>
  Claim C5, amended: the dispatcher, the exhaustive search and the dynamic programme leave
  the store of orders as it is. The greedy approximation never changes the value or the
  weight of an order, and never touches an order that is not in the list or is heavier than
  the capacity; when it returns a number, every order of the list that is not heavier than
  the capacity carries the ratio of its value and weight.
\<close>

theorem greedy_writes_ratio_only:
  "snd (call_maximum_value h orders W) = h \<and>
   snd (call_maximum_value_naive h orders W) = h \<and>
   snd (call_maximum_value_dynamic_solution_memoized h orders W) = h \<and>
   (maximum_value_greedy_approx h orders W = (r, h') \<longrightarrow>
      (\<forall>a. order_value (h' a) = order_value (h a) \<and> order_weight (h' a) = order_weight (h a) \<and>
           (a \<notin> set orders \<or> W < order_weight (h a) \<longrightarrow> h' a = h a) \<and>
           ((\<exists>g. r = Inr g) \<and> a \<in> set orders \<and> order_weight (h a) \<le> W \<longrightarrow>
              order_ratio (h' a) =
                Some (of_int (order_value (h a)) / of_int (order_weight (h a))))))"
proof (intro conjI impI allI)
  show "snd (call_maximum_value h orders W) = h"
    by (simp add: call_maximum_value_def)
  show "snd (call_maximum_value_naive h orders W) = h"
    by (simp add: call_maximum_value_naive_def)
  show "snd (call_maximum_value_dynamic_solution_memoized h orders W) = h"
    by (simp add: call_maximum_value_dynamic_solution_memoized_def)
next
  fix a assume g: "maximum_value_greedy_approx h orders W = (r, h')"
  from greedy_frame [OF g, of a]
  show "order_value (h' a) = order_value (h a)" "order_weight (h' a) = order_weight (h a)"
    by simp_all
  {
    assume "a \<notin> set orders \<or> W < order_weight (h a)"
    then show "h' a = h a" using greedy_frame [OF g, of a] by simp
  }
  {
    assume "(\<exists>g. r = Inr g) \<and> a \<in> set orders \<and> order_weight (h a) \<le> W"
    then show "order_ratio (h' a) =
        Some (of_int (order_value (h a)) / of_int (order_weight (h a)))"
      using greedy_sets_ratio [of h orders W _ h' a] g by auto
  }
qed

theorem greedy_writes_ratio_only_witness:
  "fst (maximum_value_greedy_approx greedy_store [0, 1, 2] 50) = Inr 160 \<and>
   order_value (snd (maximum_value_greedy_approx greedy_store [0, 1, 2] 50) 1) = 100 \<and>
   order_weight (snd (maximum_value_greedy_approx greedy_store [0, 1, 2] 50) 1) = 20 \<and>
   order_ratio (snd (maximum_value_greedy_approx greedy_store [0, 1, 2] 50) 1) = Some 5 \<and>
   snd (maximum_value_greedy_approx greedy_store [0, 1, 2] 50) 3 = greedy_store 3"
proof -
  let ?G = "maximum_value_greedy_approx greedy_store [0, 1, 2] 50"
  have r: "fst ?G = Inr 160" by (rule greedy_store_eval)
  have "?G = (fst ?G, snd ?G)" by simp
  from greedy_writes_ratio_only [of greedy_store "[0, 1, 2]" 50 "fst ?G" "snd ?G"] this
  have all: "\<forall>a. order_value (snd ?G a) = order_value (greedy_store a) \<and>
      order_weight (snd ?G a) = order_weight (greedy_store a) \<and>
      (a \<notin> set [0, 1, 2] \<or> 50 < order_weight (greedy_store a) \<longrightarrow> snd ?G a = greedy_store a) \<and>
      ((\<exists>g. fst ?G = Inr g) \<and> a \<in> set [0, 1, 2] \<and> order_weight (greedy_store a) \<le> 50 \<longrightarrow>
         order_ratio (snd ?G a) =
           Some (of_int (order_value (greedy_store a)) / of_int (order_weight (greedy_store a))))"
    by blast
  have v1: "order_value (greedy_store 1) = 100" "order_weight (greedy_store 1) = 20"
    by (simp_all add: greedy_store_def mk_order_def)
  have "order_value (snd ?G 1) = 100" "order_weight (snd ?G 1) = 20"
    using all [rule_format, of 1] v1 by simp_all
  moreover have "order_ratio (snd ?G 1) = Some 5"
    using all [rule_format, of 1] v1 r by simp
  moreover have "snd ?G 3 = greedy_store 3"
    using all [rule_format, of 3] by simp
  ultimately show ?thesis using r by simp
qed

text \<open>
  Claim C6 says that the greedy approximation returns a number for every list of orders with
  non-negative weights, weight 0 included. On the single order of value 1 and weight 0, at
  capacity 0, the division of the value by the weight raises \<open>ZeroDivisionError\<close>.
  Lemma \<open>greedy_raises_on_zero_weight\<close> shows that no list that holds an order of
  weight 0 gets a number back, at any capacity \<open>W \<ge> 0\<close>: the call raises
  \<open>ZeroDivisionError\<close>, unless the ratio of an earlier order has overflowed first.
\<close>

theorem greedy_zero_weight_raises:
  "fst (maximum_value_greedy_approx zero_weight_store [0] 0) = Inl ZeroDivisionError"
  by (simp add: maximum_value_greedy_approx_def zero_weight_store_def mk_order_def true_div_zero)

section \<open>Claims about the exhaustive search\<close>

text \<open>
  Claim C1 says that the dynamic programme and the exhaustive search agree on orders with
  non-negative values and non-negative weights. They do not once an order has weight 0:
  the dynamic programme stores 0 for every cell of capacity 0 and so never counts an order
  of weight 0 there, while the exhaustive search does. The two solvers do agree when every
  weight is positive (lemma \<open>naive_agrees_on_positive_weights\<close>).
\<close>

theorem naive_and_dp_disagree_on_zero_weight:
  "maximum_value_naive [mk_order 5 0] 0 = Inr 5 \<and>
   maximum_value_dynamic_solution_memoized [mk_order 5 0] 0 = Inr 0 \<and>
   maximum_value_naive [mk_order 5 0, mk_order 7 3] 3 = Inr 12 \<and>
   maximum_value_dynamic_solution_memoized [mk_order 5 0, mk_order 7 3] 3 = Inr 7"
  by code_simp

end
